theory Spec2Isabelle
  imports Main
begin

section \<open>Values, entities and the heap\<close>

text \<open>
  Entities are plain, JSON-serialisable objects owned by the host (the source types them
  as \<open>any\<close>; the service reads \<open>entityId\<close> from them, clones them through
  \<open>JSON.parse(JSON.stringify(e))\<close> and writes them back with \<open>Object.assign\<close>).
  A field value is a JSON tree; numbers are restricted to integers, which JSON
  round-trips exactly. An object is the finite map of its own properties. Field values
  are immutable trees: the service itself only reads and replaces whole top-level
  properties, and the host's edits are modelled as functions on the property map.
\<close>

datatype json =
    JNull
  | JBool bool
  | JNum int
  | JStr string
  | JArr "json list"
  | JObj "(string \<times> json) list"

type_synonym obj = "string \<rightharpoonup> json"

text \<open>
  Objects are handled by reference in the source: the entity of an action is a pointer to
  the live entity, the two snapshots are objects of their own, and the arrays
  \<open>actions\<close> and \<open>pending\<close> hold pointers to \<open>DrawingAction\<close> objects that
  \<open>undo\<close>/\<open>redo\<close> mutate in place. A reference is an address.
\<close>

type_synonym ref = nat

datatype UndoStateEnum = Pending | Restored | Undone

datatype UndoCUDOpEnum = Update | Create | Delete

text \<open>
  \<open>class DrawingAction\<close>. \<open>prevState\<close> and \<open>nextState\<close> are references to
  snapshot objects; \<open>None\<close> is JavaScript's \<open>undefined\<close> (\<open>nextState\<close> before
  \<open>store\<close>, and either of them after a swap with an undefined one).
\<close>

record DrawingAction =
  entity :: ref
  prevState :: "ref option"
  nextState :: "ref option"
  status :: UndoStateEnum
  cudOp :: UndoCUDOpEnum

text \<open>
  The host callbacks are external code. The model records which callback was invoked
  with which argument, in order: \<open>createRequested\<close> receives the entity (a reference),
  \<open>deleteRequested\<close> receives the value of the entity's \<open>entityId\<close> property
  (\<open>None\<close> when the property is absent).
\<close>

datatype host_call = CreateRequested ref | DeleteRequested "json option"

text \<open>
  \<open>class UndoService\<close>: the two arrays of action references, the bound, and whether
  each optional callback has been assigned by the host.
\<close>

record UndoService =
  actions :: "ref list"
  pending :: "ref list"
  maxActions :: int
  createRequested :: bool
  deleteRequested :: bool

text \<open>
  The service together with the heap it works on: the host's entities (every address
  holds an object; an address the host never used holds the object without properties),
  the snapshot objects and the \<open>DrawingAction\<close> objects in allocation order (the
  address of an object is its index), and the trace of callback invocations.
\<close>

record world = UndoService +
  ents :: "ref \<Rightarrow> obj"
  snaps :: "obj list"
  acts :: "DrawingAction list"
  calls :: "host_call list"

section \<open>DrawingAction\<close>

text \<open>\<open>e.entityId\<close>: the property read on the live entity.\<close>

definition entityId :: "ref \<Rightarrow> world \<Rightarrow> json option" where
  "entityId e s = ents s e ''entityId''"

text \<open>
  \<open>cloneState(e) = JSON.parse(JSON.stringify(e))\<close>: a new object, structurally equal
  to the entity, at a fresh address. (The second variant of the class in the repository
  copies the own properties one by one into a new object; on plain data it gives the
  same result.)
\<close>

definition cloneState :: "ref \<Rightarrow> world \<Rightarrow> ref \<times> world" where
  "cloneState e s = (length (snaps s), s\<lparr>snaps := snaps s @ [ents s e]\<rparr>)"

text \<open>\<open>new DrawingAction(e, cudOp)\<close>: returns the address of the new action.\<close>

definition new_DrawingAction :: "ref \<Rightarrow> UndoCUDOpEnum \<Rightarrow> world \<Rightarrow> ref \<times> world" where
  "new_DrawingAction e op s =
     (let (p, s1) = cloneState e s;
          a = \<lparr>entity = e, prevState = Some p, nextState = None,
               status = Pending, cudOp = op\<rparr>
      in (length (acts s1), s1\<lparr>acts := acts s1 @ [a]\<rparr>))"

text \<open>
  \<open>DrawingAction.store(e)\<close> on the action at address \<open>a\<close>. The result is
  \<open>this.prevState !== this.nextState\<close>: a comparison of the two references.
\<close>

definition DrawingAction_store :: "ref \<Rightarrow> ref \<Rightarrow> world \<Rightarrow> bool \<times> world" where
  "DrawingAction_store a e s =
     (let (n, s1) = cloneState e s;
          s2 = s1\<lparr>acts := (acts s1)[a := (acts s1 ! a)\<lparr>nextState := Some n,
                                                        status := Restored\<rparr>]\<rparr>
      in (prevState (acts s2 ! a) \<noteq> nextState (acts s2 ! a), s2))"

text \<open>
  \<open>Object.assign(target, source)\<close> copies every own property of the source onto the
  target and keeps the target's other properties; an undefined source is skipped.
  Where a property of the source holds a nested object, the source code copies the
  reference, so that afterwards the entity shares that nested object with the snapshot.
  The values of this model are immutable trees and do not represent the sharing: no call
  of the service mutates a nested object, so the sharing shows only when the host later
  edits a nested object of the entity in place, which \<open>host_edit\<close> does not describe.
  All statements below are about the field values the service reads and writes.
\<close>

definition Object_assign :: "ref \<Rightarrow> ref option \<Rightarrow> world \<Rightarrow> world" where
  "Object_assign target source s =
     (case source of
        None \<Rightarrow> s
      | Some p \<Rightarrow> s\<lparr>ents := (ents s)(target := ents s target ++ (snaps s ! p))\<rparr>)"

definition switchState :: "UndoStateEnum \<Rightarrow> ref \<Rightarrow> world \<Rightarrow> world" where
  "switchState st a s =
     (let tmp = prevState (acts s ! a);
          s1 = Object_assign (entity (acts s ! a)) (prevState (acts s ! a)) s
      in s1\<lparr>acts := (acts s1)[a := (acts s1 ! a)\<lparr>prevState := nextState (acts s1 ! a),
                                                    nextState := tmp,
                                                    status := st\<rparr>]\<rparr>)"

definition undo :: "ref \<Rightarrow> world \<Rightarrow> world" where
  "undo a s = switchState Undone a s"

definition redo :: "ref \<Rightarrow> world \<Rightarrow> world" where
  "redo a s = switchState Restored a s"

section \<open>UndoService\<close>

text \<open>
  \<open>new UndoService(maxActions)\<close> over the host's entities: both arrays empty, no
  callback assigned yet.
\<close>

definition new_UndoService :: "int \<Rightarrow> (ref \<Rightarrow> obj) \<Rightarrow> world" where
  "new_UndoService n h =
     \<lparr>actions = [], pending = [], maxActions = n,
      createRequested = False, deleteRequested = False,
      ents = h, snaps = [], acts = [], calls = []\<rparr>"

definition checkMax :: "world \<Rightarrow> world" where
  "checkMax s =
     (if int (length (actions s)) > maxActions s
      then s\<lparr>actions := drop 1 (actions s)\<rparr> else s)"

definition storeAction :: "ref \<Rightarrow> world \<Rightarrow> world" where
  "storeAction a s = checkMax (s\<lparr>actions := actions s @ [a]\<rparr>)"

text \<open>
  The body of the \<open>forEach\<close> of \<open>start\<close>, then \<open>start\<close> itself. The source's
  default \<open>cudOp = UndoCUDOpEnum.update\<close> is passed explicitly: \<open>start(es)\<close> is
  \<open>start es Update\<close>.
\<close>

definition start_each :: "UndoCUDOpEnum \<Rightarrow> world \<Rightarrow> ref \<Rightarrow> world" where
  "start_each op s e =
     (let (newAction, s1) = new_DrawingAction e op s
      in if op \<noteq> Update
         then storeAction newAction (snd (DrawingAction_store newAction e s1))
         else s1\<lparr>pending := pending s1 @ [newAction]\<rparr>)"

definition start :: "ref list \<Rightarrow> UndoCUDOpEnum \<Rightarrow> world \<Rightarrow> world" where
  "start es op s = foldl (start_each op) s es"

text \<open>
  The body of the \<open>forEach\<close> of \<open>store\<close>:
  \<open>this.pending.find(x => x.entity.entityId === e.entityId)\<close> is the first staged
  action whose entity carries the same identifier.
\<close>

definition store_each :: "world \<Rightarrow> ref \<Rightarrow> world" where
  "store_each s e =
     (case find (\<lambda>x. entityId (entity (acts s ! x)) s = entityId e s) (pending s) of
        None \<Rightarrow> s
      | Some a \<Rightarrow>
          (let (changed, s1) = DrawingAction_store a e s
           in if changed then storeAction a s1 else s1))"

definition store :: "ref list \<Rightarrow> world \<Rightarrow> world" where
  "store es s = (foldl store_each s es)\<lparr>pending := []\<rparr>"

definition abort :: "world \<Rightarrow> world" where
  "abort s = s\<lparr>pending := []\<rparr>"

definition clear :: "world \<Rightarrow> world" where
  "clear s = s\<lparr>pending := [], actions := []\<rparr>"

text \<open>\<open>ids.includes(x.entity.entityId)\<close> for an array of strings.\<close>

definition ids_includes :: "string list \<Rightarrow> json option \<Rightarrow> bool" where
  "ids_includes ids v = (case v of Some (JStr i) \<Rightarrow> i \<in> set ids | _ \<Rightarrow> False)"

text \<open>\<open>able(status, ids)\<close>; \<open>ids = None\<close> is the omitted argument.\<close>

definition able :: "UndoStateEnum \<Rightarrow> string list option \<Rightarrow> world \<Rightarrow> ref list" where
  "able st ids s =
     (case ids of
        Some l \<Rightarrow>
          if length l > 0
          then filter (\<lambda>x. ids_includes l (entityId (entity (acts s ! x)) s)
                            \<and> status (acts s ! x) = st) (actions s)
          else filter (\<lambda>x. status (acts s ! x) = st) (actions s)
      | None \<Rightarrow> filter (\<lambda>x. status (acts s ! x) = st) (actions s))"

definition redoable :: "string list option \<Rightarrow> world \<Rightarrow> ref list" where
  "redoable ids s = able Undone ids s"

definition undoable :: "string list option \<Rightarrow> world \<Rightarrow> ref list" where
  "undoable ids s = able Restored ids s"

text \<open>
  The \<open>switch\<close> of \<open>undoLast\<close> and of \<open>redoLast\<close> on the selected action: a
  callback is invoked only if the host has assigned it, and the invocation is appended to
  the trace.
\<close>

definition undo_request :: "ref \<Rightarrow> world \<Rightarrow> world" where
  "undo_request a s =
     (case cudOp (acts s ! a) of
        Create \<Rightarrow>
          if deleteRequested s
          then s\<lparr>calls := calls s @ [DeleteRequested (entityId (entity (acts s ! a)) s)]\<rparr>
          else s
      | Delete \<Rightarrow>
          if createRequested s
          then s\<lparr>calls := calls s @ [CreateRequested (entity (acts s ! a))]\<rparr>
          else s
      | Update \<Rightarrow> s)"

definition redo_request :: "ref \<Rightarrow> world \<Rightarrow> world" where
  "redo_request a s =
     (case cudOp (acts s ! a) of
        Create \<Rightarrow>
          if createRequested s
          then s\<lparr>calls := calls s @ [CreateRequested (entity (acts s ! a))]\<rparr>
          else s
      | Delete \<Rightarrow>
          if deleteRequested s
          then s\<lparr>calls := calls s @ [DeleteRequested (entityId (entity (acts s ! a)) s)]\<rparr>
          else s
      | Update \<Rightarrow> s)"

definition undoLast :: "string list option \<Rightarrow> world \<Rightarrow> world" where
  "undoLast ids s =
     (let u = undoable ids s
      in if length u = 0 then s
         else undo (u ! (length u - 1)) (undo_request (u ! (length u - 1)) s))"

definition redoLast :: "string list option \<Rightarrow> world \<Rightarrow> world" where
  "redoLast ids s =
     (let r = redoable ids s
      in if length r = 0 then s
         else redo (r ! 0) (redo_request (r ! 0) s))"

section \<open>The host\<close>

text \<open>
  Between two calls of the service the host edits its entities in place, and it assigns
  the callbacks after construction.
\<close>

definition host_edit :: "ref \<Rightarrow> (obj \<Rightarrow> obj) \<Rightarrow> world \<Rightarrow> world" where
  "host_edit e f s = s\<lparr>ents := (ents s)(e := f (ents s e))\<rparr>"

definition listen :: "world \<Rightarrow> world" where
  "listen s = s\<lparr>createRequested := True, deleteRequested := True\<rparr>"

text \<open>
  One complete edit of one entity, as the host performs it: \<open>start([e])\<close>, the edit of
  the entity in place, \<open>store([e])\<close>; and a series of such edits.
\<close>

definition commit_cycle :: "world \<Rightarrow> ref \<times> (obj \<Rightarrow> obj) \<Rightarrow> world" where
  "commit_cycle s c = store [fst c] (host_edit (fst c) (snd c) (start [fst c] Update s))"

definition commits :: "(ref \<times> (obj \<Rightarrow> obj)) list \<Rightarrow> world \<Rightarrow> world" where
  "commits cs s = foldl commit_cycle s cs"

text \<open>Any call the host can make on the service, and any sequence of them.\<close>

datatype call =
    Start "ref list" UndoCUDOpEnum
  | Store "ref list"
  | Abort
  | Clear
  | UndoLast "string list option"
  | RedoLast "string list option"
  | HostEdit ref "obj \<Rightarrow> obj"
  | Listen

fun perform :: "world \<Rightarrow> call \<Rightarrow> world" where
  "perform s (Start es op) = start es op s"
| "perform s (Store es) = store es s"
| "perform s Abort = abort s"
| "perform s Clear = clear s"
| "perform s (UndoLast ids) = undoLast ids s"
| "perform s (RedoLast ids) = redoLast ids s"
| "perform s (HostEdit e f) = host_edit e f s"
| "perform s Listen = listen s"

definition run :: "call list \<Rightarrow> world \<Rightarrow> world" where
  "run cs s = foldl perform s cs"

section \<open>Invariant of the log\<close>

text \<open>
  Every committed action is an allocated \<open>DrawingAction\<close> whose status is not pending,
  and every staged action is an allocated one whose status is pending.
\<close>

definition log_inv :: "world \<Rightarrow> bool" where
  "log_inv s \<longleftrightarrow>
     (\<forall>a\<in>set (actions s). a < length (acts s) \<and> status (acts s ! a) \<noteq> Pending)
     \<and> (\<forall>a\<in>set (pending s). a < length (acts s) \<and> status (acts s ! a) = Pending)"

text \<open>The part of the invariant that holds also in the middle of \<open>store\<close>.\<close>

definition committed_ok :: "world \<Rightarrow> bool" where
  "committed_ok s \<longleftrightarrow>
     (\<forall>a\<in>set (actions s). a < length (acts s) \<and> status (acts s ! a) \<noteq> Pending)
     \<and> (\<forall>a\<in>set (pending s). a < length (acts s))"

section \<open>Example drawings\<close>

text \<open>Two entities, \<open>{entityId: "a", x: 0}\<close> at address 0 and \<open>{entityId: "b", y: 0}\<close> at address 1.\<close>

definition drawing :: "ref \<Rightarrow> obj" where
  "drawing = (\<lambda>_. Map.empty)
     (0 := [''entityId'' \<mapsto> JStr ''a'', ''x'' \<mapsto> JNum 0],
      1 := [''entityId'' \<mapsto> JStr ''b'', ''y'' \<mapsto> JNum 0])"

definition set_field :: "string \<Rightarrow> json \<Rightarrow> obj \<Rightarrow> obj" where
  "set_field k v ob = ob(k \<mapsto> v)"

definition delete_field :: "string \<Rightarrow> obj \<Rightarrow> obj" where
  "delete_field k ob = ob(k := None)"

text \<open>Both entities edited and committed, one after the other, in a log of ten.\<close>

definition two_commits :: world where
  "two_commits =
     commits [(0, set_field ''x'' (JNum 1)), (1, set_field ''y'' (JNum 1))]
       (new_UndoService 10 drawing)"

text \<open>Entity 0 announced as created to a service whose callbacks are assigned.\<close>

definition created :: world where
  "created = start [0] Create (listen (new_UndoService 10 drawing))"

text \<open>Seven committed edits, alternating between the two entities.\<close>

definition seven_edits :: "(ref \<times> (obj \<Rightarrow> obj)) list" where
  "seven_edits =
     [(0, set_field ''x'' (JNum 1)), (1, set_field ''y'' (JNum 1)),
      (0, set_field ''x'' (JNum 2)), (1, set_field ''y'' (JNum 2)),
      (0, set_field ''x'' (JNum 3)), (1, set_field ''y'' (JNum 3)),
      (0, set_field ''x'' (JNum 4))]"

text \<open>A session that uses every kind of call.\<close>

definition some_calls :: "call list" where
  "some_calls =
     [Listen, Start [0] Update, HostEdit 0 (set_field ''x'' (JNum 1)), Store [0],
      Start [1] Create, UndoLast None, Start [1] Update, RedoLast (Some [''a''])]"

text \<open>
  An edit of entity 0 committed and undone, then a second edit of it committed: the log
  holds an undone record followed by a restored one.
\<close>

definition redo_elsewhere :: world where
  "redo_elsewhere =
     commits [(0, set_field ''x'' (JNum 5))]
       (undoLast None (commits [(0, set_field ''x'' (JNum 1))] (new_UndoService 10 drawing)))"

text \<open>An edit that removes the field \<open>x\<close> of entity 0, committed.\<close>

definition field_removed :: world where
  "field_removed = commits [(0, delete_field ''x'')] (new_UndoService 10 drawing)"


text \<open>The same creation on a service with bound 0, and on one without callbacks.\<close>

definition created_unbounded :: world where
  "created_unbounded = start [0] Create (listen (new_UndoService 0 drawing))"

definition created_unheard :: world where
  "created_unheard = start [0] Create (new_UndoService 10 drawing)"

text \<open>
  Entity 1 announced as deleted, then edited by the host (\<open>y\<close> set to 9) before the
  undo.
\<close>

definition deleted_then_edited :: world where
  "deleted_then_edited =
     host_edit 1 (set_field ''y'' (JNum 9))
       (start [1] Delete (listen (new_UndoService 10 drawing)))"


lemmas service_defs =
  start_def start_each_def new_DrawingAction_def cloneState_def DrawingAction_store_def
  store_def store_each_def storeAction_def checkMax_def new_UndoService_def entityId_def
  undoLast_def redoLast_def undoable_def redoable_def able_def undo_def redo_def
  switchState_def Object_assign_def undo_request_def redo_request_def host_edit_def
  ids_includes_def abort_def clear_def listen_def commit_cycle_def commits_def

lemmas drawing_defs = drawing_def set_field_def delete_field_def

lemmas eval_defs = service_defs drawing_defs Let_def

section \<open>Effects of the operations\<close>

subsection \<open>The state swap\<close>

lemma switchState_frame [simp]:
  "actions (switchState st a s) = actions s"
  "pending (switchState st a s) = pending s"
  "maxActions (switchState st a s) = maxActions s"
  "createRequested (switchState st a s) = createRequested s"
  "deleteRequested (switchState st a s) = deleteRequested s"
  "snaps (switchState st a s) = snaps s"
  "calls (switchState st a s) = calls s"
  by (simp_all add: switchState_def Object_assign_def Let_def split: option.splits)

lemma acts_switchState:
  "acts (switchState st a s) =
     (acts s)[a := (acts s ! a)\<lparr>prevState := nextState (acts s ! a),
                               nextState := prevState (acts s ! a), status := st\<rparr>]"
  by (simp add: switchState_def Object_assign_def Let_def split: option.splits)

lemma ents_switchState:
  "ents (switchState st a s) =
     (case prevState (acts s ! a) of
        None \<Rightarrow> ents s
      | Some p \<Rightarrow> (ents s)(entity (acts s ! a) :=
                     ents s (entity (acts s ! a)) ++ (snaps s ! p)))"
  by (simp add: switchState_def Object_assign_def Let_def split: option.splits)

lemma able_filter:
  "able st ids s =
     filter (\<lambda>x. (case ids of
                     None \<Rightarrow> True
                   | Some l \<Rightarrow> l = [] \<or> ids_includes l (entityId (entity (acts s ! x)) s))
                 \<and> status (acts s ! x) = st) (actions s)"
  by (cases ids) (simp_all add: able_def)



lemma undoLast_eq:
  "undoLast ids s =
     (if undoable ids s = [] then s
      else undo (last (undoable ids s)) (undo_request (last (undoable ids s)) s))"
  by (simp add: undoLast_def Let_def last_conv_nth)

lemma redoLast_eq:
  "redoLast ids s =
     (if redoable ids s = [] then s
      else redo (hd (redoable ids s)) (redo_request (hd (redoable ids s)) s))"
  by (simp add: redoLast_def Let_def hd_conv_nth)



text \<open>
  C6. When \<open>ids\<close> is omitted or the empty list, \<open>able\<close> returns every committed
  record with the required status, in log order; otherwise exactly the records with that
  status whose entity's \<open>entityId\<close> is one of the given strings. \<open>undoable\<close> asks for
  status restored and \<open>redoable\<close> for status undone.
\<close>

theorem C6_filtering_rule:
  "able st None s = filter (\<lambda>x. status (acts s ! x) = st) (actions s)
   \<and> able st (Some []) s = filter (\<lambda>x. status (acts s ! x) = st) (actions s)
   \<and> (ids \<noteq> [] \<longrightarrow>
        able st (Some ids) s =
          filter (\<lambda>x. (\<exists>i\<in>set ids. entityId (entity (acts s ! x)) s = Some (JStr i))
                      \<and> status (acts s ! x) = st) (actions s))
   \<and> undoable ids' s = able Restored ids' s
   \<and> redoable ids' s = able Undone ids' s"
proof -
  have "ids_includes ids v \<longleftrightarrow> (\<exists>i\<in>set ids. v = Some (JStr i))" for v
    by (auto simp: ids_includes_def split: option.splits json.splits)
  then show ?thesis
    by (simp add: able_def undoable_def redoable_def)
qed


theorem C6_filtering_rule_witness:
  "[''a''] \<noteq> []
   \<and> able Restored (Some [''a'']) two_commits = [0]
   \<and> able Restored None two_commits = [0, 1]
   \<and> able Restored (Some []) two_commits = [0, 1]"
  using C6_filtering_rule [of Restored two_commits "[''a'']"]
  by (simp add: two_commits_def eval_defs)

subsection \<open>start and the callbacks\<close>

lemma start_each_stored:
  "op \<noteq> Update \<Longrightarrow>
   start_each op s e =
     s\<lparr>snaps := snaps s @ [ents s e, ents s e],
       acts := acts s @ [\<lparr>entity = e, prevState = Some (length (snaps s)),
                          nextState = Some (Suc (length (snaps s))),
                          status = Restored, cudOp = op\<rparr>],
       actions := (if maxActions s < int (length (actions s)) + 1
                   then drop 1 (actions s @ [length (acts s)])
                   else actions s @ [length (acts s)])\<rparr>"
  by (simp add: start_each_def new_DrawingAction_def cloneState_def DrawingAction_store_def
      storeAction_def checkMax_def Let_def)

lemma start_each_staged:
  "start_each Update s e =
     s\<lparr>snaps := snaps s @ [ents s e],
       acts := acts s @ [\<lparr>entity = e, prevState = Some (length (snaps s)),
                          nextState = None, status = Pending, cudOp = Update\<rparr>],
       pending := pending s @ [length (acts s)]\<rparr>"
  by (simp add: start_each_def new_DrawingAction_def cloneState_def Let_def)

lemma undo_request_frame [simp]:
  "actions (undo_request a s) = actions s"
  "pending (undo_request a s) = pending s"
  "maxActions (undo_request a s) = maxActions s"
  "createRequested (undo_request a s) = createRequested s"
  "deleteRequested (undo_request a s) = deleteRequested s"
  "snaps (undo_request a s) = snaps s"
  "acts (undo_request a s) = acts s"
  "ents (undo_request a s) = ents s"
  by (simp_all add: undo_request_def split: UndoCUDOpEnum.splits)

lemma redo_request_frame [simp]:
  "actions (redo_request a s) = actions s"
  "pending (redo_request a s) = pending s"
  "maxActions (redo_request a s) = maxActions s"
  "createRequested (redo_request a s) = createRequested s"
  "deleteRequested (redo_request a s) = deleteRequested s"
  "snaps (redo_request a s) = snaps s"
  "acts (redo_request a s) = acts s"
  "ents (redo_request a s) = ents s"
  by (simp_all add: redo_request_def split: UndoCUDOpEnum.splits)

lemma map_add_same: "m ++ m = m"
  by (rule ext) (simp add: map_add_def split: option.splits)

lemma last_filter_snoc: "P a \<Longrightarrow> last (filter P (xs @ [a])) = a"
  by simp

lemma calls_undoLast:
  "undoable ids s \<noteq> [] \<Longrightarrow>
   calls (undoLast ids s) = calls s @
     (case cudOp (acts s ! last (undoable ids s)) of
        Create \<Rightarrow>
          if deleteRequested s
          then [DeleteRequested (entityId (entity (acts s ! last (undoable ids s))) s)]
          else []
      | Delete \<Rightarrow>
          if createRequested s
          then [CreateRequested (entity (acts s ! last (undoable ids s)))]
          else []
      | Update \<Rightarrow> [])"
  by (simp add: undoLast_eq undo_def undo_request_def split: UndoCUDOpEnum.splits)

lemma calls_redoLast:
  "redoable ids s \<noteq> [] \<Longrightarrow>
   calls (redoLast ids s) = calls s @
     (case cudOp (acts s ! hd (redoable ids s)) of
        Create \<Rightarrow>
          if createRequested s
          then [CreateRequested (entity (acts s ! hd (redoable ids s)))]
          else []
      | Delete \<Rightarrow>
          if deleteRequested s
          then [DeleteRequested (entityId (entity (acts s ! hd (redoable ids s))) s)]
          else []
      | Update \<Rightarrow> [])"
  by (simp add: redoLast_eq redo_def redo_request_def split: UndoCUDOpEnum.splits)

lemma create_then_undoLast:
  assumes max: "1 \<le> maxActions s" and cb: "deleteRequested s"
  shows "calls (undoLast None (start [e] Create s)) = calls s @ [DeleteRequested (entityId e s)]"
    and "ents (undoLast None (start [e] Create s)) = ents s"
proof -
  define a where "a = length (acts s)"
  define s' where "s' = start [e] Create s"
  have s': "s' = start_each Create s e"
    by (simp add: s'_def start_def)
  have acts': "acts s' ! a = \<lparr>entity = e, prevState = Some (length (snaps s)),
                          nextState = Some (Suc (length (snaps s))),
                          status = Restored, cudOp = Create\<rparr>"
    by (simp add: s' start_each_stored a_def)
  have "\<exists>xs. actions s' = xs @ [a]"
  proof (cases "maxActions s < int (length (actions s)) + 1")
    case True
    with max have "actions s \<noteq> []" by auto
    then obtain x ys where "actions s = x # ys"
      by (cases "actions s") auto
    then show ?thesis
      using True by (simp add: s' start_each_stored a_def)
  next
    case False
    then show ?thesis by (simp add: s' start_each_stored a_def)
  qed
  then obtain xs where xs: "actions s' = xs @ [a]" ..
  have u: "undoable None s' \<noteq> []" "last (undoable None s') = a"
    by (simp_all add: undoable_def able_def xs acts')
  have frame: "calls s' = calls s" "ents s' = ents s" "deleteRequested s' = deleteRequested s"
    "snaps s' = snaps s @ [ents s e, ents s e]"
    by (simp_all add: s' start_each_stored)
  show "calls (undoLast None (start [e] Create s)) = calls s @ [DeleteRequested (entityId e s)]"
    using cb unfolding s'_def [symmetric]
    by (simp add: undoLast_eq u undo_def undo_request_def acts' frame entityId_def)
  show "ents (undoLast None (start [e] Create s)) = ents s"
    unfolding s'_def [symmetric]
    by (simp add: undoLast_eq u undo_def ents_switchState acts' frame nth_append map_add_same)
qed

text \<open>
  C5, as amended. On the record it selects, \<open>undoLast\<close> invokes \<open>deleteRequested\<close>
  with the identifier read on the live entity when the record is a creation,
  \<open>createRequested\<close> with the record's live entity (the object itself, not one of the
  snapshots) when it is a deletion, each only if the host has assigned the callback, and
  no callback when it is an update; \<open>redoLast\<close> has the two callbacks swapped. With a
  bound of at least one and \<open>deleteRequested\<close> assigned, \<open>start([e], create)\<close>
  followed by \<open>undoLast()\<close> invokes \<open>deleteRequested(e.entityId)\<close> exactly once, and
  leaves every entity's fields as they were.
\<close>

theorem C5_host_callbacks:
  "(undoable ids s \<noteq> [] \<longrightarrow>
      calls (undoLast ids s) = calls s @
        (case cudOp (acts s ! last (undoable ids s)) of
           Create \<Rightarrow>
             if deleteRequested s
             then [DeleteRequested (entityId (entity (acts s ! last (undoable ids s))) s)]
             else []
         | Delete \<Rightarrow>
             if createRequested s
             then [CreateRequested (entity (acts s ! last (undoable ids s)))]
             else []
         | Update \<Rightarrow> []))
   \<and> (redoable ids s \<noteq> [] \<longrightarrow>
      calls (redoLast ids s) = calls s @
        (case cudOp (acts s ! hd (redoable ids s)) of
           Create \<Rightarrow>
             if createRequested s
             then [CreateRequested (entity (acts s ! hd (redoable ids s)))]
             else []
         | Delete \<Rightarrow>
             if deleteRequested s
             then [DeleteRequested (entityId (entity (acts s ! hd (redoable ids s))) s)]
             else []
         | Update \<Rightarrow> []))
   \<and> (1 \<le> maxActions s \<and> deleteRequested s \<longrightarrow>
      calls (undoLast None (start [e] Create s)) = calls s @ [DeleteRequested (entityId e s)]
      \<and> ents (undoLast None (start [e] Create s)) = ents s)"
  using calls_undoLast [of ids s] calls_redoLast [of ids s] create_then_undoLast [of s e]
  by blast

theorem C5_host_callbacks_witness:
  "undoable None created \<noteq> []
   \<and> redoable None (undoLast None created) \<noteq> []
   \<and> 1 \<le> maxActions (listen (new_UndoService 10 drawing))
   \<and> deleteRequested (listen (new_UndoService 10 drawing))
   \<and> calls (undoLast None created) = [DeleteRequested (Some (JStr ''a''))]
   \<and> ents (undoLast None created) = drawing
   \<and> calls (redoLast None (undoLast None created))
        = [DeleteRequested (Some (JStr ''a'')), CreateRequested 0]"
proof -
  have h1: "undoable None created \<noteq> []"
    by (simp add: created_def eval_defs)
  have h2: "redoable None (undoLast None created) \<noteq> []"
    by (simp add: created_def eval_defs)
  have h3: "1 \<le> maxActions (listen (new_UndoService 10 drawing))
            \<and> deleteRequested (listen (new_UndoService 10 drawing))"
    by (simp add: eval_defs)
  have e: "ents (listen (new_UndoService 10 drawing)) = drawing"
    "calls (listen (new_UndoService 10 drawing)) = []"
    "entityId 0 (listen (new_UndoService 10 drawing)) = Some (JStr ''a'')"
    by (simp_all add: eval_defs)
  from C5_host_callbacks [of None created 0]
    C5_host_callbacks [of None "undoLast None created" 0]
    C5_host_callbacks [of None "listen (new_UndoService 10 drawing)" 0]
    h1 h2 h3
  show ?thesis
    by (simp add: created_def [symmetric] e) (simp add: created_def eval_defs)
qed

text \<open>
  C5 as stated fails in three ways. With bound 0 the record of the creation is dropped as
  soon as it is pushed, and \<open>undoLast()\<close> right after \<open>start([e], create)\<close> invokes
  nothing, although \<open>deleteRequested\<close> is assigned. Without callbacks assigned,
  \<open>undoLast()\<close> undoes the creation record and invokes nothing. And on a deletion
  record \<open>createRequested\<close> receives the live entity, not a snapshot: in
  \<open>deleted_then_edited\<close> the object passed holds \<open>y = 9\<close> at the moment of the call
  while both snapshots of the record hold \<open>y = 0\<close>.
\<close>

theorem C5_host_callbacks_counterexample:
  "maxActions (listen (new_UndoService 0 drawing)) = 0
   \<and> deleteRequested (listen (new_UndoService 0 drawing))
   \<and> calls (undoLast None created_unbounded) = []
   \<and> actions created_unheard = [0]
   \<and> cudOp (acts created_unheard ! 0) = Create
   \<and> last (undoable None created_unheard) = 0
   \<and> status (acts (undoLast None created_unheard) ! 0) = Undone
   \<and> calls (undoLast None created_unheard) = []
   \<and> actions deleted_then_edited = [0]
   \<and> cudOp (acts deleted_then_edited ! 0) = Delete
   \<and> last (undoable None deleted_then_edited) = 0
   \<and> entity (acts deleted_then_edited ! 0) = 1
   \<and> prevState (acts deleted_then_edited ! 0) = Some 0
   \<and> nextState (acts deleted_then_edited ! 0) = Some 1
   \<and> calls (undoLast None deleted_then_edited) = [CreateRequested 1]
   \<and> ents (undo_request 0 deleted_then_edited) 1 ''y'' = Some (JNum 9)
   \<and> (snaps deleted_then_edited ! 0) ''y'' = Some (JNum 0)
   \<and> (snaps deleted_then_edited ! 1) ''y'' = Some (JNum 0)
   \<and> ents (undo_request 0 deleted_then_edited) 1 \<noteq> snaps deleted_then_edited ! 0
   \<and> ents (undo_request 0 deleted_then_edited) 1 \<noteq> snaps deleted_then_edited ! 1"
proof -
  have y: "ents (undo_request 0 deleted_then_edited) 1 ''y'' = Some (JNum 9)"
    "(snaps deleted_then_edited ! 0) ''y'' = Some (JNum 0)"
    "(snaps deleted_then_edited ! 1) ''y'' = Some (JNum 0)"
    by (simp_all add: deleted_then_edited_def eval_defs)
  have n0: "ents (undo_request 0 deleted_then_edited) 1 \<noteq> snaps deleted_then_edited ! 0"
  proof
    assume "ents (undo_request 0 deleted_then_edited) 1 = snaps deleted_then_edited ! 0"
    then have "ents (undo_request 0 deleted_then_edited) 1 ''y''
               = (snaps deleted_then_edited ! 0) ''y''"
      by simp
    then show False
      by (simp only: y) simp
  qed
  have n1: "ents (undo_request 0 deleted_then_edited) 1 \<noteq> snaps deleted_then_edited ! 1"
  proof
    assume "ents (undo_request 0 deleted_then_edited) 1 = snaps deleted_then_edited ! 1"
    then have "ents (undo_request 0 deleted_then_edited) 1 ''y''
               = (snaps deleted_then_edited ! 1) ''y''"
      by simp
    then show False
      by (simp only: y) simp
  qed
  have a: "maxActions (listen (new_UndoService 0 drawing)) = 0
     \<and> deleteRequested (listen (new_UndoService 0 drawing))
     \<and> calls (undoLast None created_unbounded) = []"
    by (simp add: created_unbounded_def eval_defs)
  have b: "actions created_unheard = [0]
     \<and> cudOp (acts created_unheard ! 0) = Create
     \<and> last (undoable None created_unheard) = 0
     \<and> status (acts (undoLast None created_unheard) ! 0) = Undone
     \<and> calls (undoLast None created_unheard) = []"
    by (simp add: created_unheard_def eval_defs)
  have c: "actions deleted_then_edited = [0]
     \<and> cudOp (acts deleted_then_edited ! 0) = Delete
     \<and> last (undoable None deleted_then_edited) = 0
     \<and> entity (acts deleted_then_edited ! 0) = 1
     \<and> prevState (acts deleted_then_edited ! 0) = Some 0
     \<and> nextState (acts deleted_then_edited ! 0) = Some 1
     \<and> calls (undoLast None deleted_then_edited) = [CreateRequested 1]"
    by (simp add: deleted_then_edited_def eval_defs)
  from a b c y n0 n1 show ?thesis
    by blast
qed

section \<open>Edits that change nothing\<close>

lemma DrawingAction_store_true:
  assumes "a < length (acts s)" and "prevState (acts s ! a) = Some p" and "p < length (snaps s)"
  shows "fst (DrawingAction_store a e s)"
  using assms by (simp add: DrawingAction_store_def cloneState_def Let_def)

text \<open>
  C1 says that an entity left unchanged between \<open>start\<close> and \<open>store\<close> adds no
  record to the log, \<open>DrawingAction.store\<close> comparing the two snapshots by value. The
  code compares the two references. At an entity that is not edited between
  \<open>start\<close> and \<open>store\<close>, \<open>DrawingAction.store\<close> returns true and the record is
  appended to the log, although its two snapshots are equal by value (they live at the
  two addresses 0 and 1).
\<close>

theorem C1_unchanged_entity_is_committed:
  "fst (DrawingAction_store 0 0 (start [0] Update (new_UndoService 10 drawing))) = True
   \<and> ents (store [0] (start [0] Update (new_UndoService 10 drawing))) = drawing
   \<and> actions (new_UndoService 10 drawing) = []
   \<and> actions (store [0] (start [0] Update (new_UndoService 10 drawing))) = [0]
   \<and> acts (store [0] (start [0] Update (new_UndoService 10 drawing))) =
       [\<lparr>entity = 0, prevState = Some 0, nextState = Some 1, status = Restored, cudOp = Update\<rparr>]
   \<and> snaps (store [0] (start [0] Update (new_UndoService 10 drawing))) ! 0 =
       snaps (store [0] (start [0] Update (new_UndoService 10 drawing))) ! 1"
  by (simp add: eval_defs)

section \<open>store and the bounded log\<close>

lemma storeAction_eq:
  "storeAction a s =
     s\<lparr>actions := (if maxActions s < int (length (actions s)) + 1
                   then drop 1 (actions s @ [a]) else actions s @ [a])\<rparr>"
  by (simp add: storeAction_def checkMax_def)

lemma snd_DrawingAction_store:
  "snd (DrawingAction_store a e s) =
      s\<lparr>snaps := snaps s @ [ents s e],
        acts := (acts s)[a := (acts s ! a)\<lparr>nextState := Some (length (snaps s)),
                                          status := Restored\<rparr>]\<rparr>"
  by (simp add: DrawingAction_store_def cloneState_def Let_def)

lemma store_each_cases:
  "store_each s e = s
   \<or> (\<exists>a\<in>set (pending s).
        store_each s e = snd (DrawingAction_store a e s)
        \<or> store_each s e = storeAction a (snd (DrawingAction_store a e s)))"
proof (cases "find (\<lambda>x. entityId (entity (acts s ! x)) s = entityId e s) (pending s)")
  case None
  then show ?thesis by (simp add: store_each_def)
next
  case (Some a)
  then have "a \<in> set (pending s)"
    by (auto simp: find_Some_iff)
  with Some show ?thesis
    by (auto simp: store_each_def split_def Let_def)
qed

lemma commit_cycle_eq:
  assumes "pending s = []"
  shows "commit_cycle s (e, f) =
     s\<lparr>ents := (ents s)(e := f (ents s e)),
       snaps := snaps s @ [ents s e, f (ents s e)],
       acts := acts s @ [\<lparr>entity = e, prevState = Some (length (snaps s)),
                          nextState = Some (Suc (length (snaps s))),
                          status = Restored, cudOp = Update\<rparr>],
       actions := (if maxActions s < int (length (actions s)) + 1
                   then drop 1 (actions s @ [length (acts s)])
                   else actions s @ [length (acts s)])\<rparr>"
  using assms
  by (simp add: commit_cycle_def start_def start_each_staged host_edit_def store_def
      store_each_def entityId_def DrawingAction_store_def cloneState_def storeAction_eq Let_def)


lemma actions_commit_cycle:
  "pending s = [] \<Longrightarrow>
   actions (commit_cycle s c) = actions (storeAction (length (acts s)) s)"
  using commit_cycle_eq [of s "fst c" "snd c"] by (simp add: storeAction_eq)

lemma actions_storeAction_upt:
  assumes n: "1 \<le> maxActions s" and l: "actions s = [k - nat (maxActions s)..<k]"
  shows "actions (storeAction k s) = [Suc k - nat (maxActions s)..<Suc k]"
proof (cases "nat (maxActions s) \<le> k")
  case True
  with n have lt: "k - nat (maxActions s) < k" by arith
  have full: "maxActions s < int (length (actions s)) + 1"
    using True n by (simp add: l)
  have "actions s = (k - nat (maxActions s)) # [Suc (k - nat (maxActions s))..<k]"
    unfolding l using lt by (rule upt_conv_Cons)
  then have "drop 1 (actions s @ [k]) = [Suc (k - nat (maxActions s))..<k] @ [k]"
    by simp
  also have "\<dots> = [Suc k - nat (maxActions s)..<Suc k]"
    using True lt by (simp add: Suc_diff_le)
  finally show ?thesis
    using full by (simp add: storeAction_eq)
next
  case False
  then have "\<not> maxActions s < int (length (actions s)) + 1"
    by (simp add: l)
  then show ?thesis
    using False by (simp add: storeAction_eq l)
qed

lemma commits_snoc: "commits (cs @ [c]) s = commit_cycle (commits cs s) c"
  by (simp add: commits_def)

lemma commits_frame:
  "pending s = [] \<Longrightarrow>
   pending (commits cs s) = []
   \<and> maxActions (commits cs s) = maxActions s
   \<and> map entity (acts (commits cs s)) = map entity (acts s) @ map fst cs
   \<and> map status (acts (commits cs s)) = map status (acts s) @ map (\<lambda>c. Restored) cs
   \<and> map cudOp (acts (commits cs s)) = map cudOp (acts s) @ map (\<lambda>c. Update) cs"
proof (induction cs rule: rev_induct)
  case Nil
  then show ?case by (simp add: commits_def)
next
  case (snoc c cs)
  then have p: "pending (commits cs s) = []" by simp
  show ?case
    using snoc commit_cycle_eq [OF p, of "fst c" "snd c"]
    by (simp add: commits_snoc)
qed

lemma commits_log:
  assumes "1 \<le> n"
  shows "actions (commits cs (new_UndoService n h)) = [length cs - nat n..<length cs]"
proof (induction cs rule: rev_induct)
  case Nil
  show ?case by (simp add: commits_def new_UndoService_def)
next
  case (snoc c cs)
  let ?s = "commits cs (new_UndoService n h)"
  have p0: "pending (new_UndoService n h) = []"
    by (simp add: new_UndoService_def)
  have p: "pending ?s = []" and m: "maxActions ?s = n"
    using commits_frame [OF p0, of cs] by (simp_all add: new_UndoService_def)
  have "length (map entity (acts ?s)) = length cs"
    using commits_frame [OF p0, of cs] by (simp add: new_UndoService_def)
  then have la: "length (acts ?s) = length cs" by simp
  have "actions (commits (cs @ [c]) (new_UndoService n h))
          = actions (storeAction (length cs) ?s)"
    by (simp add: commits_snoc actions_commit_cycle [OF p] la)
  also have "\<dots> = [Suc (length cs) - nat n..<Suc (length cs)]"
    using actions_storeAction_upt [of ?s "length cs"] assms snoc by (simp add: m)
  finally show ?case by simp
qed


text \<open>
  C3. With a bound \<open>n \<ge> 1\<close>: \<open>storeAction\<close> appends the record and then, when the
  log is longer than \<open>n\<close>, drops exactly its first element, so a log within the bound
  stays within it. After any number of committed edits on a new service the log holds the
  addresses of the last \<open>n\<close> records created, in the order of their creation (records
  are allocated in commit order, one per edit, for the edited entity); after \<open>n + 5\<close>
  edits its length is exactly \<open>n\<close> and it holds the records number
  \<open>5, \<dots>, n + 4\<close>.
\<close>

theorem C3_bounded_log:
  assumes "1 \<le> n"
  shows "(maxActions s = n \<longrightarrow>
            actions (storeAction a s) =
              (if n < int (length (actions s @ [a]))
               then drop 1 (actions s @ [a]) else actions s @ [a]))
         \<and> (maxActions s = n \<and> int (length (actions s)) \<le> n \<longrightarrow>
              int (length (actions (storeAction a s))) \<le> n)
         \<and> actions (commits cs (new_UndoService n h)) = [length cs - nat n..<length cs]
         \<and> map entity (acts (commits cs (new_UndoService n h))) = map fst cs
         \<and> (length cs = nat n + 5 \<longrightarrow>
              length (actions (commits cs (new_UndoService n h))) = nat n
              \<and> actions (commits cs (new_UndoService n h)) = [5..<nat n + 5])"
proof -
  have a: "maxActions s = n \<longrightarrow>
            actions (storeAction a s) =
              (if n < int (length (actions s @ [a]))
               then drop 1 (actions s @ [a]) else actions s @ [a])"
    by (simp add: storeAction_eq)
  have b: "maxActions s = n \<and> int (length (actions s)) \<le> n \<longrightarrow>
              int (length (actions (storeAction a s))) \<le> n"
    using assms by (auto simp: storeAction_eq)
  have c: "actions (commits cs (new_UndoService n h)) = [length cs - nat n..<length cs]"
    for cs
    by (rule commits_log [OF assms])
  have d: "map entity (acts (commits cs (new_UndoService n h))) = map fst cs"
    using commits_frame [of "new_UndoService n h" cs] by (simp add: new_UndoService_def)
  have e: "length cs = nat n + 5 \<longrightarrow>
              length (actions (commits cs (new_UndoService n h))) = nat n
              \<and> actions (commits cs (new_UndoService n h)) = [5..<nat n + 5]"
    by (simp add: c)
  from a b c d e show ?thesis by blast
qed

theorem C3_bounded_log_witness:
  "(1::int) \<le> 2
   \<and> length seven_edits = nat 2 + 5
   \<and> length (actions (commits seven_edits (new_UndoService 2 drawing))) = 2
   \<and> actions (commits seven_edits (new_UndoService 2 drawing)) = [5, 6]
   \<and> map entity (acts (commits seven_edits (new_UndoService 2 drawing))) = [0, 1, 0, 1, 0, 1, 0]
   \<and> maxActions two_commits = 10
   \<and> actions (storeAction 7 two_commits) = [0, 1, 7]"
proof -
  have l: "length seven_edits = nat 2 + 5"
    by (simp add: seven_edits_def)
  have m: "maxActions two_commits = 10" "actions two_commits = [0, 1]"
    by (simp_all add: two_commits_def eval_defs)
  have u: "[5..<7] = [5, 6]"
    by (simp add: upt_rec)
  from C3_bounded_log [of 2 "commits seven_edits (new_UndoService 2 drawing)" 0 seven_edits drawing] l
  have "length (actions (commits seven_edits (new_UndoService 2 drawing))) = 2
        \<and> actions (commits seven_edits (new_UndoService 2 drawing)) = [5, 6]
        \<and> map entity (acts (commits seven_edits (new_UndoService 2 drawing))) = map fst seven_edits"
    by (simp add: u)
  moreover from C3_bounded_log [of 10 two_commits 7] m
  have "actions (storeAction 7 two_commits) = [0, 1, 7]"
    by simp
  ultimately show ?thesis
    using l m by (simp add: seven_edits_def)
qed

section \<open>Invariants over every sequence of calls\<close>

lemma foldl_preserves:
  assumes "\<And>s x. P s \<Longrightarrow> P (f s x)" and "P s"
  shows "P (foldl f s xs)"
  using assms(2) by (induction xs arbitrary: s) (simp_all add: assms(1))

lemma no_history_start_each:
  "maxActions s \<le> 0 \<and> actions s = [] \<Longrightarrow>
   maxActions (start_each op s e) \<le> 0 \<and> actions (start_each op s e) = []"
  by (cases "op = Update") (simp_all add: start_each_staged start_each_stored)

lemma no_history_store_each:
  "maxActions s \<le> 0 \<and> actions s = [] \<Longrightarrow>
   maxActions (store_each s e) \<le> 0 \<and> actions (store_each s e) = []"
  using store_each_cases [of s e]
  by (auto simp: snd_DrawingAction_store storeAction_eq)

lemma no_history_perform:
  assumes "maxActions s \<le> 0 \<and> actions s = []"
  shows "maxActions (perform s c) \<le> 0 \<and> actions (perform s c) = []"
proof (cases c)
  case (Start es op)
  show ?thesis
    unfolding Start perform.simps start_def
    by (rule foldl_preserves [where P = "\<lambda>s. maxActions s \<le> 0 \<and> actions s = []"])
       (simp_all only: no_history_start_each assms)
next
  case (Store es)
  have "maxActions (foldl store_each s es) \<le> 0 \<and> actions (foldl store_each s es) = []"
    by (rule foldl_preserves [where P = "\<lambda>s. maxActions s \<le> 0 \<and> actions s = []"])
       (simp_all only: no_history_store_each assms)
  then show ?thesis
    by (simp add: Store store_def)
next
  case (UndoLast ids)
  with assms show ?thesis
    by (simp add: undoLast_eq undoable_def able_filter)
next
  case (RedoLast ids)
  with assms show ?thesis
    by (simp add: redoLast_eq redoable_def able_filter)
qed (use assms in \<open>simp_all add: abort_def clear_def host_edit_def listen_def\<close>)

lemma no_history_run:
  "maxActions s \<le> 0 \<and> actions s = [] \<Longrightarrow>
   maxActions (run cs s) \<le> 0 \<and> actions (run cs s) = []"
  unfolding run_def
  by (rule foldl_preserves [where P = "\<lambda>s. maxActions s \<le> 0 \<and> actions s = []"])
     (simp_all only: no_history_perform)

text \<open>
  C8. The constructor accepts a bound \<open>n \<le> 0\<close>, and the service then keeps no
  history: after any sequence of calls the committed log is empty, so \<open>undoLast\<close> and
  \<open>redoLast\<close> leave the world as it is, whatever the filter.
\<close>

theorem C8_no_history_kept:
  assumes "n \<le> 0"
  shows "actions (run cs (new_UndoService n h)) = []
         \<and> undoLast ids (run cs (new_UndoService n h)) = run cs (new_UndoService n h)
         \<and> redoLast ids (run cs (new_UndoService n h)) = run cs (new_UndoService n h)"
proof -
  have "maxActions (new_UndoService n h) \<le> 0 \<and> actions (new_UndoService n h) = []"
    using assms by (simp add: new_UndoService_def)
  then have "actions (run cs (new_UndoService n h)) = []"
    using no_history_run by blast
  then show ?thesis
    by (simp add: undoLast_eq redoLast_eq undoable_def redoable_def able_filter)
qed


theorem C8_no_history_kept_witness:
  "(0::int) \<le> 0 \<and> (-1::int) \<le> 0
   \<and> actions (run some_calls (new_UndoService 0 drawing)) = []
   \<and> undoLast None (run some_calls (new_UndoService 0 drawing))
        = run some_calls (new_UndoService 0 drawing)
   \<and> redoLast None (run some_calls (new_UndoService (-1) drawing))
        = run some_calls (new_UndoService (-1) drawing)"
  using C8_no_history_kept [of 0 some_calls drawing None]
    C8_no_history_kept [of "-1" some_calls drawing None]
  by simp

lemma log_inv_committed_ok: "log_inv s \<Longrightarrow> committed_ok s"
  by (simp add: log_inv_def committed_ok_def)

lemma set_actions_storeAction:
  "set (actions (storeAction a s)) \<subseteq> insert a (set (actions s))"
proof -
  have "set (drop 1 (actions s @ [a])) \<subseteq> set (actions s @ [a])"
    by (rule set_drop_subset)
  then show ?thesis
    by (auto simp: storeAction_eq simp del: drop_append)
qed

lemma storeAction_frame [simp]:
  "pending (storeAction a s) = pending s"
  "maxActions (storeAction a s) = maxActions s"
  "acts (storeAction a s) = acts s"
  "snaps (storeAction a s) = snaps s"
  "ents (storeAction a s) = ents s"
  "calls (storeAction a s) = calls s"
  by (simp_all add: storeAction_eq)

lemma status_after_update:
  "x < length xs \<Longrightarrow>
   status (xs[a := r] ! x) = (if x = a then status r else status (xs ! x))"
  by (simp add: nth_list_update)

lemma log_inv_start_each:
  assumes "log_inv s"
  shows "log_inv (start_each op s e)"
proof (cases "op = Update")
  case True
  with assms show ?thesis
    by (auto simp: log_inv_def start_each_staged nth_append)
next
  case False
  let ?r = "\<lparr>entity = e, prevState = Some (length (snaps s)),
             nextState = Some (Suc (length (snaps s))), status = Restored, cudOp = op\<rparr>"
  let ?s1 = "s\<lparr>snaps := snaps s @ [ents s e, ents s e], acts := acts s @ [?r]\<rparr>"
  have eq: "start_each op s e = storeAction (length (acts s)) ?s1"
    using False by (simp add: start_each_stored storeAction_eq)
  have "a < length (acts ?s1) \<and> status (acts ?s1 ! a) \<noteq> Pending"
    if "a \<in> set (actions (storeAction (length (acts s)) ?s1))" for a
  proof -
    from that set_actions_storeAction [of "length (acts s)" ?s1]
    have "a = length (acts s) \<or> a \<in> set (actions s)" by auto
    with assms show ?thesis
      by (auto simp: log_inv_def nth_append)
  qed
  moreover have "a < length (acts ?s1) \<and> status (acts ?s1 ! a) = Pending"
    if "a \<in> set (pending s)" for a
    using assms that by (auto simp: log_inv_def nth_append)
  ultimately show ?thesis
    unfolding eq by (simp add: log_inv_def)
qed

lemma committed_ok_store_each:
  assumes ok: "committed_ok s"
  shows "committed_ok (store_each s e)"
proof -
  have stored: "committed_ok (snd (DrawingAction_store a e s))
                \<and> committed_ok (storeAction a (snd (DrawingAction_store a e s)))"
    if a: "a \<in> set (pending s)" for a
  proof -
    let ?s1 = "snd (DrawingAction_store a e s)"
    from ok a have la: "a < length (acts s)"
      by (simp add: committed_ok_def)
    have len: "length (acts ?s1) = length (acts s)"
      and f: "actions ?s1 = actions s" "pending ?s1 = pending s"
      by (simp_all add: snd_DrawingAction_store)
    have st: "status (acts ?s1 ! x) = (if x = a then Restored else status (acts s ! x))"
      if "x < length (acts s)" for x
      using that by (simp add: snd_DrawingAction_store status_after_update)
    have old: "x < length (acts ?s1) \<and> status (acts ?s1 ! x) \<noteq> Pending"
      if "x = a \<or> x \<in> set (actions s)" for x
    proof -
      from that ok la have "x < length (acts s)"
        by (auto simp: committed_ok_def)
      moreover from that ok have "x \<noteq> a \<longrightarrow> status (acts s ! x) \<noteq> Pending"
        by (auto simp: committed_ok_def)
      ultimately show ?thesis
        by (simp add: len st)
    qed
    have pend: "\<forall>x\<in>set (pending s). x < length (acts ?s1)"
      using ok by (simp add: committed_ok_def len)
    have 1: "committed_ok ?s1"
      using old pend by (simp add: committed_ok_def f)
    have "\<forall>x\<in>set (actions (storeAction a ?s1)). x = a \<or> x \<in> set (actions s)"
      using set_actions_storeAction [of a ?s1] by (auto simp: f)
    then have 2: "committed_ok (storeAction a ?s1)"
      using old pend by (simp add: committed_ok_def f)
    from 1 2 show ?thesis ..
  qed
  from store_each_cases [of s e] stored ok show ?thesis
    by auto
qed

lemma log_inv_store:
  assumes "log_inv s"
  shows "log_inv (store es s)"
proof -
  have "committed_ok (foldl store_each s es)"
    by (rule foldl_preserves [where P = committed_ok])
       (simp_all only: committed_ok_store_each log_inv_committed_ok [OF assms])
  then show ?thesis
    by (simp add: store_def committed_ok_def log_inv_def)
qed

lemma log_inv_switch:
  assumes inv: "log_inv s" and a: "a \<in> set (actions s)" and st: "st \<noteq> Pending"
  shows "log_inv (switchState st a s)"
proof -
  let ?r = "(acts s ! a)\<lparr>prevState := nextState (acts s ! a),
                          nextState := prevState (acts s ! a), status := st\<rparr>"
  from inv a have "status (acts s ! a) \<noteq> Pending"
    by (simp add: log_inv_def)
  with inv have np: "a \<notin> set (pending s)"
    by (auto simp: log_inv_def)
  have "x < length ((acts s)[a := ?r]) \<and> status ((acts s)[a := ?r] ! x) \<noteq> Pending"
    if "x \<in> set (actions s)" for x
  proof -
    from inv that have "x < length (acts s)" "status (acts s ! x) \<noteq> Pending"
      by (simp_all add: log_inv_def)
    with st show ?thesis
      by (simp add: status_after_update)
  qed
  moreover have "x < length ((acts s)[a := ?r]) \<and> status ((acts s)[a := ?r] ! x) = Pending"
    if "x \<in> set (pending s)" for x
  proof -
    from inv that have "x < length (acts s)" "status (acts s ! x) = Pending"
      by (simp_all add: log_inv_def)
    moreover from that np have "x \<noteq> a" by blast
    ultimately show ?thesis
      by (simp add: status_after_update)
  qed
  ultimately show ?thesis
    by (simp add: log_inv_def acts_switchState)
qed

lemma log_inv_request:
  "log_inv (undo_request a s) = log_inv s" "log_inv (redo_request a s) = log_inv s"
  by (simp_all add: log_inv_def)

lemma log_inv_perform:
  assumes "log_inv s"
  shows "log_inv (perform s c)"
proof (cases c)
  case (Start es op)
  show ?thesis
    unfolding Start perform.simps start_def
    by (rule foldl_preserves [where P = log_inv]) (simp_all only: log_inv_start_each assms)
next
  case (Store es)
  with assms show ?thesis by (simp add: log_inv_store)
next
  case Abort
  with assms show ?thesis by (simp add: abort_def log_inv_def)
next
  case Clear
  with assms show ?thesis by (simp add: clear_def log_inv_def)
next
  case (UndoLast ids)
  show ?thesis
  proof (cases "undoable ids s = []")
    case True
    with assms show ?thesis by (simp add: UndoLast undoLast_eq)
  next
    case False
    then have "last (undoable ids s) \<in> set (undoable ids s)" by simp
    then have "last (undoable ids s) \<in> set (actions s)"
      by (simp add: undoable_def able_filter)
    with assms False show ?thesis
      by (simp add: UndoLast undoLast_eq undo_def log_inv_switch log_inv_request)
  qed
next
  case (RedoLast ids)
  show ?thesis
  proof (cases "redoable ids s = []")
    case True
    with assms show ?thesis by (simp add: RedoLast redoLast_eq)
  next
    case False
    then have "hd (redoable ids s) \<in> set (redoable ids s)" by simp
    then have "hd (redoable ids s) \<in> set (actions s)"
      by (simp add: redoable_def able_filter)
    with assms False show ?thesis
      by (simp add: RedoLast redoLast_eq redo_def log_inv_switch log_inv_request)
  qed
next
  case (HostEdit e f)
  with assms show ?thesis by (simp add: host_edit_def log_inv_def)
next
  case Listen
  with assms show ?thesis by (simp add: listen_def log_inv_def)
qed

text \<open>
  C10. The invariant holds for a new service and is kept by every call, hence it holds
  after every sequence of calls: each committed record is allocated and has status restored
  or undone, never pending, and each staged record has status pending.
\<close>

theorem C10_no_pending_in_log:
  "log_inv (new_UndoService n h)
   \<and> (log_inv s \<longrightarrow> log_inv (perform s c))
   \<and> log_inv (run cs (new_UndoService n h))
   \<and> (\<forall>a\<in>set (actions (run cs (new_UndoService n h))).
         status (acts (run cs (new_UndoService n h)) ! a) = Restored
         \<or> status (acts (run cs (new_UndoService n h)) ! a) = Undone)"
proof -
  have 0: "log_inv (new_UndoService n h)"
    by (simp add: log_inv_def new_UndoService_def)
  have r: "log_inv (run cs (new_UndoService n h))"
    unfolding run_def
    by (rule foldl_preserves [where P = log_inv]) (simp_all only: log_inv_perform 0)
  have "status (acts (run cs (new_UndoService n h)) ! a) = Restored
         \<or> status (acts (run cs (new_UndoService n h)) ! a) = Undone"
    if "a \<in> set (actions (run cs (new_UndoService n h)))" for a
    using r that
    by (cases "status (acts (run cs (new_UndoService n h)) ! a)") (auto simp: log_inv_def)
  with 0 r log_inv_perform [of s c] show ?thesis
    by blast
qed

theorem C10_no_pending_in_log_witness:
  "log_inv two_commits
   \<and> log_inv (perform two_commits (UndoLast None))
   \<and> status (acts (perform two_commits (UndoLast None)) ! 1) = Undone
   \<and> log_inv (perform two_commits (Start [0] Update))
   \<and> pending (perform two_commits (Start [0] Update)) = [2]
   \<and> status (acts (perform two_commits (Start [0] Update)) ! 2) = Pending"
proof -
  have 1: "log_inv two_commits"
    by (simp add: log_inv_def two_commits_def eval_defs)
  from 1 C10_no_pending_in_log [of 10 drawing two_commits "UndoLast None" "[]"]
    C10_no_pending_in_log [of 10 drawing two_commits "Start [0] Update" "[]"]
  have "log_inv (perform two_commits (UndoLast None))
        \<and> log_inv (perform two_commits (Start [0] Update))"
    by blast
  with 1 show ?thesis
    by (simp add: two_commits_def eval_defs)
qed

section \<open>Undo followed by redo\<close>

lemma switchState_eq:
  "switchState st a s =
     s\<lparr>ents := (case prevState (acts s ! a) of
                  None \<Rightarrow> ents s
                | Some p \<Rightarrow> (ents s)(entity (acts s ! a) :=
                               ents s (entity (acts s ! a)) ++ (snaps s ! p))),
       acts := (acts s)[a := (acts s ! a)\<lparr>prevState := nextState (acts s ! a),
                                         nextState := prevState (acts s ! a),
                                         status := st\<rparr>]\<rparr>"
  by (simp add: switchState_def Object_assign_def Let_def split: option.splits)

lemma undo_redo_frame [simp]:
  "actions (undo a s) = actions s" "actions (redo a s) = actions s"
  "pending (undo a s) = pending s" "pending (redo a s) = pending s"
  "snaps (undo a s) = snaps s" "snaps (redo a s) = snaps s"
  "calls (undo a s) = calls s" "calls (redo a s) = calls s"
  by (simp_all add: undo_def redo_def)

lemma map_add_back:
  assumes "dom p \<subseteq> dom q"
  shows "(q ++ p) ++ q = q"
proof (rule ext)
  fix x
  show "((q ++ p) ++ q) x = q x"
  proof (cases "q x")
    case None
    with assms have "p x = None" by (auto simp: dom_def)
    with None show ?thesis by (simp add: map_add_def)
  next
    case (Some v)
    then show ?thesis by (simp add: map_add_def)
  qed
qed

lemma undo_redo_record:
  assumes valid: "r < length (acts s)"
    and st: "status (acts s ! r) = Restored"
    and prior: "prevState (acts s ! r) = Some p"
    and later: "nextState (acts s ! r) = Some q"
    and holds: "ents s (entity (acts s ! r)) = snaps s ! q"
    and keys: "dom (snaps s ! p) \<subseteq> dom (snaps s ! q)"
  shows "redo r (undo r s) = s"
proof -
  let ?e = "entity (acts s ! r)"
  let ?s1 = "undo r s"
  have a1: "acts ?s1 ! r = (acts s ! r)\<lparr>prevState := Some q, nextState := Some p,
                                         status := Undone\<rparr>"
    using valid by (simp add: undo_def acts_switchState prior later)
  have e1: "ents ?s1 = (ents s)(?e := snaps s ! q ++ (snaps s ! p))"
    by (simp add: undo_def ents_switchState prior holds)
  have "ents (redo r ?s1) = (ents s)(?e := (snaps s ! q ++ (snaps s ! p)) ++ (snaps s ! q))"
    by (simp add: redo_def ents_switchState a1 e1)
  also have "\<dots> = ents s"
    using map_add_back [OF keys] holds by (simp add: fun_upd_idem)
  finally have ents: "ents (redo r ?s1) = ents s" .
  have "acts (redo r ?s1) = (acts s)[r := (acts s ! r)\<lparr>prevState := Some p,
                                         nextState := Some q, status := Restored\<rparr>]"
    by (simp add: redo_def acts_switchState [of Restored] a1) (simp add: undo_def acts_switchState)
  also have "(acts s ! r)\<lparr>prevState := Some p, nextState := Some q, status := Restored\<rparr>
             = acts s ! r"
    using st prior later by simp
  finally have acts: "acts (redo r ?s1) = acts s"
    by simp
  have "redo r ?s1 = s\<lparr>ents := ents (redo r ?s1), acts := acts (redo r ?s1)\<rparr>"
    by (simp add: redo_def undo_def switchState_eq)
  then show ?thesis
    by (simp add: ents acts)
qed


lemma request_Update [simp]:
  "cudOp (acts s ! a) = Update \<Longrightarrow> undo_request a s = s"
  "cudOp (acts s ! a) = Update \<Longrightarrow> redo_request a s = s"
  by (simp_all add: undo_request_def redo_request_def)

lemma hd_filter_from:
  assumes "r \<in> set xs" and "P r" and "\<forall>x\<in>set (takeWhile (\<lambda>x. x \<noteq> r) xs). \<not> P x"
  shows "filter P xs \<noteq> []" "hd (filter P xs) = r"
proof -
  from assms(1) have "xs = takeWhile (\<lambda>x. x \<noteq> r) xs @ r # tl (dropWhile (\<lambda>x. x \<noteq> r) xs)"
    by (metis (mono_tags, lifting) dropWhile_eq_Nil_conv hd_dropWhile list.collapse
        takeWhile_dropWhile_id)
  then obtain zs where xs: "xs = takeWhile (\<lambda>x. x \<noteq> r) xs @ r # zs" ..
  from assms(3) have "filter P (takeWhile (\<lambda>x. x \<noteq> r) xs) = []"
    by simp
  then have f: "filter P xs = r # filter P zs"
    using assms(2) by (subst xs) simp
  show "filter P xs \<noteq> []" "hd (filter P xs) = r"
    by (simp_all add: f)
qed

lemma undoLast_redoLast_record:
  assumes u: "undoable None s \<noteq> []" and r: "r = last (undoable None s)"
    and valid: "r < length (acts s)"
    and upd: "cudOp (acts s ! r) = Update"
    and first: "\<forall>x\<in>set (takeWhile (\<lambda>x. x \<noteq> r) (actions s)). status (acts s ! x) \<noteq> Undone"
  shows "undoLast None s = undo r s" and "redoLast None (undo r s) = redo r (undo r s)"
proof -
  show 1: "undoLast None s = undo r s"
    using u r upd by (simp add: undoLast_eq)
  from u r have "r \<in> set (undoable None s)"
    by simp
  then have mem: "r \<in> set (actions s)"
    by (simp add: undoable_def able_filter)
  let ?P = "\<lambda>x. status (acts (undo r s) ! x) = Undone"
  have Pr: "?P r"
    using valid by (simp add: undo_def acts_switchState)
  have "\<forall>x\<in>set (takeWhile (\<lambda>x. x \<noteq> r) (actions s)). \<not> ?P x"
  proof
    fix x assume x: "x \<in> set (takeWhile (\<lambda>x. x \<noteq> r) (actions s))"
    then have "x \<noteq> r" by (auto dest: set_takeWhileD)
    with first x show "\<not> ?P x"
      by (simp add: undo_def acts_switchState)
  qed
  with mem Pr have "filter ?P (actions s) \<noteq> []" "hd (filter ?P (actions s)) = r"
    by (rule hd_filter_from)+
  then have "redoable None (undo r s) \<noteq> []" "hd (redoable None (undo r s)) = r"
    by (simp_all add: redoable_def able_filter undo_def)
  moreover have "cudOp (acts (undo r s) ! r) = Update"
    using valid upd by (simp add: undo_def acts_switchState)
  ultimately show "redoLast None (undo r s) = redo r (undo r s)"
    by (simp add: redoLast_eq)
qed

text \<open>
  C2, as amended. Let \<open>r\<close> be the update record that \<open>undoLast()\<close> selects (the last
  restored record of the log), with no undone record before it in the log, whose entity
  holds the field values of its later snapshot and whose prior snapshot has no field that
  the later snapshot lacks. Then \<open>undoLast()\<close> writes the prior values onto the entity and
  marks \<open>r\<close> undone, and \<open>redoLast()\<close> right after it gives back the world as it was:
  the entity's exact field values, the record's two snapshots and its status. The same
  holds for the pair \<open>undo\<close>, \<open>redo\<close> on the record itself and for any number of
  repetitions.
\<close>

theorem C2_undo_redo_round_trip:
  assumes u: "undoable None s \<noteq> []" and r: "r = last (undoable None s)"
    and valid: "r < length (acts s)"
    and upd: "cudOp (acts s ! r) = Update"
    and first: "\<forall>x\<in>set (takeWhile (\<lambda>x. x \<noteq> r) (actions s)). status (acts s ! x) \<noteq> Undone"
    and prior: "prevState (acts s ! r) = Some p"
    and later: "nextState (acts s ! r) = Some q"
    and holds: "ents s (entity (acts s ! r)) = snaps s ! q"
    and keys: "dom (snaps s ! p) \<subseteq> dom (snaps s ! q)"
  shows "ents (undoLast None s) (entity (acts s ! r)) = snaps s ! q ++ (snaps s ! p)
         \<and> status (acts (undoLast None s) ! r) = Undone
         \<and> redoLast None (undoLast None s) = s
         \<and> redo r (undo r s) = s
         \<and> ((\<lambda>s. redoLast None (undoLast None s)) ^^ k) s = s"
proof -
  from u r have "r \<in> set (undoable None s)"
    by simp
  then have st: "status (acts s ! r) = Restored"
    by (simp add: undoable_def able_filter)
  have rt: "redo r (undo r s) = s"
    using valid st prior later holds keys by (rule undo_redo_record)
  have ul: "undoLast None s = undo r s" and rl: "redoLast None (undo r s) = redo r (undo r s)"
    using u r valid upd first by (rule undoLast_redoLast_record)+
  have once: "redoLast None (undoLast None s) = s"
    by (simp add: ul rl rt)
  have "((\<lambda>s. redoLast None (undoLast None s)) ^^ k) s = s"
    by (induction k) (simp_all add: once)
  moreover have "ents (undoLast None s) (entity (acts s ! r)) = snaps s ! q ++ (snaps s ! p)"
    by (simp add: ul undo_def ents_switchState prior holds)
  moreover have "status (acts (undoLast None s) ! r) = Undone"
    using valid by (simp add: ul undo_def acts_switchState)
  ultimately show ?thesis
    using once rt by simp
qed

theorem C2_undo_redo_round_trip_witness:
  "undoable None two_commits \<noteq> []
   \<and> 1 = last (undoable None two_commits)
   \<and> actions two_commits = [0, 1]
   \<and> status (acts two_commits ! 0) = Restored
   \<and> cudOp (acts two_commits ! 1) = Update
   \<and> ents two_commits 1 = snaps two_commits ! 3
   \<and> dom (snaps two_commits ! 2) \<subseteq> dom (snaps two_commits ! 3)
   \<and> ents (undoLast None two_commits) 1 ''y'' = Some (JNum 0)
   \<and> status (acts (undoLast None two_commits) ! 1) = Undone
   \<and> redoLast None (undoLast None two_commits) = two_commits
   \<and> ents (redoLast None (undoLast None two_commits)) 1 ''y'' = Some (JNum 1)"
proof -
  have a: "actions two_commits = [0, 1]"
    "acts two_commits =
       [\<lparr>entity = 0, prevState = Some 0, nextState = Some 1, status = Restored, cudOp = Update\<rparr>,
        \<lparr>entity = 1, prevState = Some 2, nextState = Some 3, status = Restored, cudOp = Update\<rparr>]"
    by (simp_all add: two_commits_def eval_defs)
  have u: "undoable None two_commits \<noteq> []" "1 = last (undoable None two_commits)"
    by (simp_all add: undoable_def able_def a)
  have v: "1 < length (acts two_commits)" "cudOp (acts two_commits ! 1) = Update"
    "prevState (acts two_commits ! 1) = Some 2" "nextState (acts two_commits ! 1) = Some 3"
    "entity (acts two_commits ! 1) = 1" "status (acts two_commits ! 0) = Restored"
    by (simp_all add: a)
  have f: "\<forall>x\<in>set (takeWhile (\<lambda>x. x \<noteq> 1) (actions two_commits)).
             status (acts two_commits ! x) \<noteq> Undone"
    by (simp add: a)
  have h: "ents two_commits (entity (acts two_commits ! 1)) = snaps two_commits ! 3"
    unfolding v by (simp add: two_commits_def eval_defs)
  have k: "dom (snaps two_commits ! 2) \<subseteq> dom (snaps two_commits ! 3)"
    by (simp add: two_commits_def eval_defs)
  have y: "(snaps two_commits ! 3 ++ (snaps two_commits ! 2)) ''y'' = Some (JNum 0)"
    "ents two_commits 1 ''y'' = Some (JNum 1)"
    by (simp_all add: two_commits_def eval_defs)
  from C2_undo_redo_round_trip [OF u v(1) v(2) f v(3) v(4) h k, of 1]
  show ?thesis
    using u a h k y by (simp add: v)
qed

text \<open>
  C2 as stated fails in two ways. In \<open>redo_elsewhere\<close> the entity holds the later state
  \<open>x = 5\<close> of the last record; \<open>undoLast()\<close> brings back \<open>x = 0\<close>, but
  \<open>redoLast()\<close> takes the first undone record of the log, which is the older one, and
  the entity ends with \<open>x = 1\<close>. In \<open>field_removed\<close> the edit removed \<open>x\<close>;
  \<open>Object.assign\<close> with the later snapshot does not remove the field that the undo
  wrote back, and the entity ends with \<open>x = 0\<close>.
\<close>

theorem C2_redo_elsewhere_counterexample:
  "actions redo_elsewhere = [0, 1]
   \<and> last (undoable None redo_elsewhere) = 1
   \<and> cudOp (acts redo_elsewhere ! 1) = Update
   \<and> entity (acts redo_elsewhere ! 1) = 0
   \<and> nextState (acts redo_elsewhere ! 1) = Some 3
   \<and> ents redo_elsewhere 0 = snaps redo_elsewhere ! 3
   \<and> ents redo_elsewhere 0 ''x'' = Some (JNum 5)
   \<and> ents (undoLast None redo_elsewhere) 0 ''x'' = Some (JNum 0)
   \<and> ents (redoLast None (undoLast None redo_elsewhere)) 0 ''x'' = Some (JNum 1)
   \<and> ents (redoLast None (undoLast None redo_elsewhere)) 0 \<noteq> ents redo_elsewhere 0
   \<and> actions field_removed = [0]
   \<and> cudOp (acts field_removed ! 0) = Update
   \<and> entity (acts field_removed ! 0) = 0
   \<and> nextState (acts field_removed ! 0) = Some 1
   \<and> ents field_removed 0 = snaps field_removed ! 1
   \<and> ents field_removed 0 ''x'' = None
   \<and> ents (redoLast None (undoLast None field_removed)) 0 ''x'' = Some (JNum 0)
   \<and> ents (redoLast None (undoLast None field_removed)) 0 \<noteq> ents field_removed 0"
proof -
  have 1: "ents redo_elsewhere 0 ''x'' = Some (JNum 5)"
    "ents (redoLast None (undoLast None redo_elsewhere)) 0 ''x'' = Some (JNum 1)"
    by (simp_all add: redo_elsewhere_def eval_defs)
  have 2: "ents field_removed 0 ''x'' = None"
    "ents (redoLast None (undoLast None field_removed)) 0 ''x'' = Some (JNum 0)"
    by (simp_all add: field_removed_def eval_defs)
  have "ents (redoLast None (undoLast None redo_elsewhere)) 0 \<noteq> ents redo_elsewhere 0"
    using 1 by (metis json.inject(2) option.inject numeral_eq_one_iff num.distinct(3))
  moreover
  have "ents (redoLast None (undoLast None field_removed)) 0 \<noteq> ents field_removed 0"
    using 2 by (metis option.distinct(1))
  ultimately show ?thesis
    using 1 2
    by (simp add: redo_elsewhere_def field_removed_def eval_defs)
qed


section \<open>Selective undo\<close>






section \<open>abort\<close>

lemma foldl_store_each_no_pending:
  "pending s = [] \<Longrightarrow> foldl store_each s es = s"
  by (induction es) (simp_all add: store_each_def)

lemma actions_start_each_Update: "actions (start_each Update s e) = actions s"
  by (simp add: start_each_def new_DrawingAction_def cloneState_def Let_def)

lemma actions_start_Update: "actions (start es Update s) = actions s"
  unfolding start_def
  by (induction es arbitrary: s) (simp_all add: actions_start_each_Update)

text \<open>
  C9. \<open>abort()\<close> empties the staging array and changes nothing else: no entity, no
  snapshot, no action object, no callback, and the committed log stay as they were.
  A \<open>store\<close> after an \<open>abort\<close> finds no staged action, whatever entities it is
  given, and so leaves the world as \<open>abort\<close> left it; in particular after
  \<open>start es Update\<close>, \<open>abort\<close> and \<open>store es\<close> the committed log is the one
  from before the \<open>start\<close>.
\<close>

theorem C9_abort_discards:
  "pending (abort s) = []
   \<and> actions (abort s) = actions s
   \<and> ents (abort s) = ents s
   \<and> snaps (abort s) = snaps s
   \<and> acts (abort s) = acts s
   \<and> calls (abort s) = calls s
   \<and> store es' (abort s) = abort s
   \<and> actions (store es (abort (start es Update s))) = actions s"
proof -
  have p: "pending (abort s) = []" for s :: world
    by (simp add: abort_def)
  have st: "store es' (abort s) = abort s" for es' and s :: world
    by (simp add: store_def foldl_store_each_no_pending [OF p] p)
  have "actions (store es (abort (start es Update s))) = actions (abort (start es Update s))"
    by (simp only: st)
  also have "\<dots> = actions s"
    by (simp add: abort_def actions_start_Update)
  finally show ?thesis
    by (simp add: st) (simp add: abort_def)
qed

end
